theory Spec2Isabelle
  imports Complex_Main "HOL-Library.AList" "HOL-Library.Stream"
begin

section \<open>Python values and errors\<close>

text \<open>
  The two modules \<^verbatim>\<open>fibonacci.py\<close> and \<^verbatim>\<open>pi_simulation.py\<close> compute on Python
  integers, which are unbounded: they are modelled by \<^typ>\<open>int\<close>. An exception is a
  value of \<open>error\<close>, and a function that can raise returns \<open>error + 'a\<close>, with
  \<open>Inl\<close> for the exception. The only exception the source raises itself is
  \<^verbatim>\<open>ValueError\<close>; the others are raised by the Python operations it uses
  (indexing a list, reading a dictionary, dividing, a power, a call beyond the
  recursion limit of the interpreter).
\<close>

datatype error =
  ValueError | IndexError | KeyError | ZeroDivisionError | OverflowError | RuntimeError

text \<open>
  \<^verbatim>\<open>xs[i]\<close> on a list: a negative index counts from the end, and an index out of
  range raises \<^verbatim>\<open>IndexError\<close>.
\<close>

definition getitem :: "'a list \<Rightarrow> int \<Rightarrow> error + 'a" where
  "getitem xs i =
     (let len = int (length xs); j = (if i < 0 then len + i else i)
      in if 0 \<le> j \<and> j < len then Inr (xs ! nat j) else Inl IndexError)"

text \<open>
  A dictionary with integer keys is an association list with distinct keys. \<^verbatim>\<open>d[k]\<close>
  raises \<^verbatim>\<open>KeyError\<close> on a missing key, \<^verbatim>\<open>k in d\<close> is \<open>map_of d k \<noteq> None\<close>,
  \<^verbatim>\<open>d[k] = v\<close> is \<^const>\<open>AList.update\<close> (it replaces the value of a key that is
  present and adds a key that is not), and \<^verbatim>\<open>len(d)\<close> is the number of entries.
\<close>

type_synonym dict = "(int \<times> int) list"

definition dict_get :: "dict \<Rightarrow> int \<Rightarrow> error + int" where
  "dict_get d k = (case map_of d k of None \<Rightarrow> Inl KeyError | Some v \<Rightarrow> Inr v)"

definition dict_len :: "dict \<Rightarrow> int" where
  "dict_len d = int (length d)"

section \<open>The Fibonacci numbers\<close>

text \<open>
  The sequence the specification calls "the i-th Fibonacci number": 0, 1, and from
  there on the sum of the two numbers before. The functions of the module are compared
  with it.
\<close>

fun fibonacci_number :: "nat \<Rightarrow> int" where
  "fibonacci_number 0 = 0"
| "fibonacci_number (Suc 0) = 1"
| "fibonacci_number (Suc (Suc k)) = fibonacci_number (Suc k) + fibonacci_number k"

section \<open>The module fibonacci.py\<close>

subsection \<open>fib_by_recursive\<close>

text \<open>
  \<^verbatim>\<open>
  def fib_by_recursive(n):
      if n < 0:
          raise ValueError("n must not be negative.")
      if n <= 1:
          return n
      else:
          return fib_by_recursive(n - 1) + fib_by_recursive(n - 2)
  \<close>
  An exception of a recursive call propagates; the left operand is evaluated first.
  \<open>fib_by_recursive\<close> is the function on an interpreter without a recursion limit;
  \<open>fib_by_recursive_limited\<close> below is the function under a limit.
\<close>

function fib_by_recursive :: "int \<Rightarrow> error + int" where
  "fib_by_recursive n =
     (if n < 0 then Inl ValueError
      else if n \<le> 1 then Inr n
      else (case fib_by_recursive (n - 1) of
              Inl e \<Rightarrow> Inl e
            | Inr u \<Rightarrow> (case fib_by_recursive (n - 2) of
                         Inl e \<Rightarrow> Inl e
                       | Inr v \<Rightarrow> Inr (u + v))))"
  by pat_completeness auto
termination
  by (relation "measure nat") auto

declare fib_by_recursive.simps [simp del]

text \<open>
  The interpreter limits the depth of the call stack: a call that would exceed the
  limit raises \<^verbatim>\<open>RuntimeError\<close> (maximum recursion depth exceeded) instead of running,
  which the comment above the function announces for a large \<open>n\<close>.
  \<open>fib_by_recursive_limited depth n\<close> is the call \<^verbatim>\<open>fib_by_recursive(n)\<close> when the
  interpreter allows \<open>depth\<close> further calls to be nested inside it; it is the function
  above with the limit written out.
\<close>

fun fib_by_recursive_limited :: "nat \<Rightarrow> int \<Rightarrow> error + int" where
  "fib_by_recursive_limited 0 n =
     (if n < 0 then Inl ValueError
      else if n \<le> 1 then Inr n
      else Inl RuntimeError)"
| "fib_by_recursive_limited (Suc depth) n =
     (if n < 0 then Inl ValueError
      else if n \<le> 1 then Inr n
      else (case fib_by_recursive_limited depth (n - 1) of
              Inl e \<Rightarrow> Inl e
            | Inr u \<Rightarrow> (case fib_by_recursive_limited depth (n - 2) of
                         Inl e \<Rightarrow> Inl e
                       | Inr v \<Rightarrow> Inr (u + v))))"

subsection \<open>fib_by_loop\<close>

text \<open>
  \<^verbatim>\<open>
  def fib_by_loop(n):
      if n < 0:
          raise ValueError("n must not be negative.")
      if n <= 1:
          return n
      a, b = 0, 1
      for i in range(2, n + 1):
          a, b = b, a + b
      return b
  \<close>
  \<^verbatim>\<open>range(2, n + 1)\<close> is the list \<open>[2..n]\<close>; the loop is a \<open>fold\<close> over it.
\<close>

definition loop_body :: "int \<Rightarrow> int \<times> int \<Rightarrow> int \<times> int" where
  "loop_body i s = (case s of (a, b) \<Rightarrow> (b, a + b))"

definition fib_by_loop :: "int \<Rightarrow> error + int" where
  "fib_by_loop n =
     (if n < 0 then Inl ValueError
      else if n \<le> 1 then Inr n
      else (case fold loop_body [2..n] (0, 1) of (a, b) \<Rightarrow> Inr b))"

subsection \<open>fib_by_dp\<close>

text \<open>
  \<^verbatim>\<open>
  def fib_by_dp(n):
      if n < 0:
          raise ValueError("n must not be negative.")
      fibs = [0, 1]
      for i in range(2, n + 1):
          fibs.append(fibs[i - 1] + fibs[i - 2])
      return fibs
  \<close>
  The two reads of the list can raise, so the loop runs in the error type and stops
  at the first exception.
\<close>

fun dp_loop :: "int list \<Rightarrow> int list \<Rightarrow> error + int list" where
  "dp_loop [] fibs = Inr fibs"
| "dp_loop (i # is) fibs =
     (case getitem fibs (i - 1) of
        Inl e \<Rightarrow> Inl e
      | Inr u \<Rightarrow> (case getitem fibs (i - 2) of
                   Inl e \<Rightarrow> Inl e
                 | Inr v \<Rightarrow> dp_loop is (fibs @ [u + v])))"

definition fib_by_dp :: "int \<Rightarrow> error + int list" where
  "fib_by_dp n =
     (if n < 0 then Inl ValueError
      else dp_loop [2..n] [0, 1])"

subsection \<open>fib_by_cache and its decorator\<close>

text \<open>
  \<^verbatim>\<open>
  def cache_for_fib(func):
      cache = {0: 0, 1: 1}
      def inner(n, cached = cache):
          return func(n, cached)
      return inner

  @cache_for_fib
  def fib_by_cache(n, cache):
      if n < 0:
          raise ValueError("n must not be negative.")
      if n not in cache:
          for i in range(len(cache), n + 1):
              cache[i] = cache[i - 1] + cache[i - 2]
      return cache[n]
  \<close>
  The dictionary is mutated in place and outlives the call, so the function takes the
  dictionary and returns it with its result, also when it raises: an exception in the
  middle of the loop leaves the entries written so far. \<^verbatim>\<open>range(len(cache), n + 1)\<close>
  is evaluated once, before the loop.
\<close>

fun fill_cache :: "int list \<Rightarrow> dict \<Rightarrow> error option \<times> dict" where
  "fill_cache [] cache = (None, cache)"
| "fill_cache (i # is) cache =
     (case dict_get cache (i - 1) of
        Inl e \<Rightarrow> (Some e, cache)
      | Inr u \<Rightarrow> (case dict_get cache (i - 2) of
                   Inl e \<Rightarrow> (Some e, cache)
                 | Inr v \<Rightarrow> fill_cache is (AList.update i (u + v) cache)))"

definition fib_by_cache_func :: "int \<Rightarrow> dict \<Rightarrow> (error + int) \<times> dict" where
  "fib_by_cache_func n cache =
     (if n < 0 then (Inl ValueError, cache)
      else (case (if map_of cache n = None
                  then fill_cache [dict_len cache..n] cache
                  else (None, cache)) of
              (Some e, cache') \<Rightarrow> (Inl e, cache')
            | (None, cache') \<Rightarrow> (dict_get cache' n, cache')))"

text \<open>
  The decorator creates the dictionary once and returns \<^verbatim>\<open>inner\<close>, which hands it
  to the decorated function on every call: the model returns the dictionary as created
  together with \<^verbatim>\<open>inner\<close>. The name \<^verbatim>\<open>fib_by_cache\<close> of the module is \<^verbatim>\<open>inner\<close>,
  and \<open>fib_cache\<close> is the dictionary at import time.
\<close>

definition cache_for_fib :: "(int \<Rightarrow> dict \<Rightarrow> 'r) \<Rightarrow> dict \<times> (int \<Rightarrow> dict \<Rightarrow> 'r)" where
  "cache_for_fib func =
     (let cache = [(0, 0), (1, 1)];
          inner = (\<lambda>n cached. func n cached)
      in (cache, inner))"

definition fib_cache :: dict where
  "fib_cache = fst (cache_for_fib fib_by_cache_func)"

definition fib_by_cache :: "int \<Rightarrow> dict \<Rightarrow> (error + int) \<times> dict" where
  "fib_by_cache = snd (cache_for_fib fib_by_cache_func)"

text \<open>
  A process calls \<^verbatim>\<open>fib_by_cache\<close> any number of times; every call works on the
  dictionary the call before left. \<open>fib_by_cache_calls ns cache\<close> makes the calls
  \<open>ns\<close> in order (a caller that catches the exception of one call goes on with the
  next) and returns the outcomes and the last dictionary.
\<close>

fun fib_by_cache_calls :: "int list \<Rightarrow> dict \<Rightarrow> (error + int) list \<times> dict" where
  "fib_by_cache_calls [] cache = ([], cache)"
| "fib_by_cache_calls (n # ns) cache =
     (case fib_by_cache n cache of
        (r, cache') \<Rightarrow> (case fib_by_cache_calls ns cache' of
                         (rs, cache'') \<Rightarrow> (r # rs, cache'')))"

subsection \<open>fib_by_matrix\<close>

text \<open>
  \<^verbatim>\<open>
  def fib_by_matrix(n):
      if n < 0:
          raise ValueError("n must not be negative.")
      if n <= 1:
          return n
      a, b, c = 1, 1, 0
      for i in bin(n)[3:]:
          tmp = b ** 2
          a, b, c = a ** 2 + tmp, a * b + b * c, tmp + c ** 2
          if i == '1':
              a, b, c = a + b, a, b
      return b
  \<close>
  \<^verbatim>\<open>bin(n)\<close> is the string \<^verbatim>\<open>0b\<close> followed by the binary digits of \<open>n\<close>, the
  most significant first, with a leading minus sign for a negative \<open>n\<close>;
  \<^verbatim>\<open>bin(n)[3:]\<close> drops its first three characters.
\<close>

function bin_digits :: "nat \<Rightarrow> string" where
  "bin_digits k =
     (if k < 2 then [if k = 0 then CHR ''0'' else CHR ''1'']
      else bin_digits (k div 2) @ [if k mod 2 = 0 then CHR ''0'' else CHR ''1''])"
  by pat_completeness auto
termination
  by (relation "measure id") auto

declare bin_digits.simps [simp del]

definition bin :: "int \<Rightarrow> string" where
  "bin n = (if n < 0 then ''-0b'' @ bin_digits (nat (- n)) else ''0b'' @ bin_digits (nat n))"

definition matrix_body :: "char \<Rightarrow> int \<times> int \<times> int \<Rightarrow> int \<times> int \<times> int" where
  "matrix_body i s =
     (case s of (a, b, c) \<Rightarrow>
        (let tmp = b ^ 2 in
         (case (a ^ 2 + tmp, a * b + b * c, tmp + c ^ 2) of (a, b, c) \<Rightarrow>
            if i = CHR ''1'' then (a + b, a, b) else (a, b, c))))"

definition fib_by_matrix :: "int \<Rightarrow> error + int" where
  "fib_by_matrix n =
     (if n < 0 then Inl ValueError
      else if n \<le> 1 then Inr n
      else (case fold matrix_body (drop 3 (bin n)) (1, 1, 0) of (a, b, c) \<Rightarrow> Inr b))"

subsection \<open>Floating point\<close>

text \<open>
  A Python float is one of finitely many real numbers, and an operation on floats
  returns the exact result rounded to a float. The model computes on \<^typ>\<open>real\<close> and
  takes the rounding function of the platform as the parameter \<open>fl\<close>, applied at every
  place where Python rounds. Nothing is assumed of it in the definitions; a theorem
  that needs the rounding to be accurate says so, every other theorem holds for every
  rounding, and \<open>fl = (\<lambda>x. x)\<close> is arithmetic without rounding error. The
  parameter \<open>fmax\<close> is the largest finite float: a power beyond it raises
  \<^verbatim>\<open>OverflowError\<close>. Integers that the pi module converts with \<^verbatim>\<open>float(k)\<close> are taken
  to be in the range of the floats.

  \<^verbatim>\<open>a / float(b)\<close> for integers \<open>a\<close> and \<open>b\<close>: \<^verbatim>\<open>float(b)\<close> is zero for \<open>b = 0\<close>
  only, and then the division raises \<^verbatim>\<open>ZeroDivisionError\<close>.
\<close>

definition int_div_float :: "(real \<Rightarrow> real) \<Rightarrow> int \<Rightarrow> int \<Rightarrow> error + real" where
  "int_div_float fl a b =
     (if b = 0 then Inl ZeroDivisionError
      else Inr (fl (fl (real_of_int a) / fl (real_of_int b))))"





subsection \<open>fib_by_binet and fib_by_binet_approx\<close>



section \<open>The module pi_simulation.py\<close>

subsection \<open>pi_simulation\<close>

text \<open>
  \<^verbatim>\<open>
  def pi_simulation(n):
      if n < 0:
          raise ValueError("n must be positive.")
      count = 0
      for x in range(n + 1):
          for y in range(n + 1):
              if x ** 2 + y ** 2 <= n ** 2:
                  count += 1
      return 4 * count / float((n + 1) ** 2)
  \<close>
  \<^verbatim>\<open>range(n + 1)\<close> is the list \<open>[0..n]\<close>; the two loops are nested folds over it.
\<close>

definition count_body :: "int \<Rightarrow> int \<Rightarrow> int \<Rightarrow> int \<Rightarrow> int" where
  "count_body n x y count = (if x ^ 2 + y ^ 2 \<le> n ^ 2 then count + 1 else count)"

definition pi_simulation :: "(real \<Rightarrow> real) \<Rightarrow> int \<Rightarrow> error + real" where
  "pi_simulation fl n =
     (if n < 0 then Inl ValueError
      else (let count = fold (\<lambda>x count. fold (count_body n x) [0..n] count) [0..n] 0
            in int_div_float fl (4 * count) ((n + 1) ^ 2)))"

subsection \<open>pi_simulation_by_random\<close>

text \<open>
  \<^verbatim>\<open>
  def pi_simulation_by_random(n):
      if n < 0:
          raise ValueError("n must be positive.")
      count = 0
      for i in range(n):
          x = random.random()
          y = random.random()
          if x ** 2 + y ** 2 <= 1: count += 1
      return 4 * count / float(n)
  \<close>
  The generator behind \<^verbatim>\<open>random.random()\<close> is state of the process: it is modelled
  by the stream of the floats it is going to return (each in the interval from 0 to 1,
  so that a square cannot overflow). A call of \<^verbatim>\<open>random.random()\<close> returns the head of
  the stream and leaves its tail; the function takes the generator and returns it with
  its result.
\<close>

definition random_body :: "(real \<Rightarrow> real) \<Rightarrow> int \<Rightarrow> int \<times> real stream \<Rightarrow> int \<times> real stream" where
  "random_body fl i s =
     (case s of (count, g) \<Rightarrow>
        (let x = shd g; g = stl g;
             y = shd g; g = stl g
         in (if fl (fl (x ^ 2) + fl (y ^ 2)) \<le> 1 then count + 1 else count, g)))"

definition pi_simulation_by_random ::
    "(real \<Rightarrow> real) \<Rightarrow> int \<Rightarrow> real stream \<Rightarrow> (error + real) \<times> real stream" where
  "pi_simulation_by_random fl n g =
     (if n < 0 then (Inl ValueError, g)
      else (case fold (random_body fl) [0..n - 1] (0, g) of
              (count, g') \<Rightarrow> (int_div_float fl (4 * count) n, g')))"

text \<open>
  A process calls the two functions of the module any number of times, in any order;
  the generator is the only state that passes from one call to the next.
\<close>

datatype pi_call = Pi_simulation int | Pi_simulation_by_random int

fun do_pi_call :: "(real \<Rightarrow> real) \<Rightarrow> pi_call \<Rightarrow> real stream \<Rightarrow> (error + real) \<times> real stream" where
  "do_pi_call fl (Pi_simulation n) g = (pi_simulation fl n, g)"
| "do_pi_call fl (Pi_simulation_by_random n) g = pi_simulation_by_random fl n g"

fun pi_calls :: "(real \<Rightarrow> real) \<Rightarrow> pi_call list \<Rightarrow> real stream \<Rightarrow> (error + real) list \<times> real stream" where
  "pi_calls fl [] g = ([], g)"
| "pi_calls fl (c # cs) g =
     (case do_pi_call fl c g of
        (r, g') \<Rightarrow> (case pi_calls fl cs g' of (rs, g'') \<Rightarrow> (r # rs, g'')))"

section \<open>Notions of the specification\<close>

text \<open>
  The lattice points the specification counts: the integer points \<open>(x, y)\<close> with
  \<open>0 \<le> x, y \<le> n\<close> and \<open>x\<^sup>2 + y\<^sup>2 \<le> n\<^sup>2\<close>.
\<close>

definition lattice_points :: "int \<Rightarrow> (int \<times> int) set" where
  "lattice_points n = Set.filter (\<lambda>(x, y). x ^ 2 + y ^ 2 \<le> n ^ 2) ({0..n} \<times> {0..n})"

text \<open>
  The dictionary that holds the Fibonacci numbers of the indices below \<open>m\<close>, in the
  order of the indices.
\<close>

definition fib_table :: "nat \<Rightarrow> dict" where
  "fib_table m = map (\<lambda>i. (int i, fibonacci_number i)) [0..<m]"

text \<open>
  A rounding is accurate when its relative error is at most \<open>float_eps\<close>, which is the
  relative distance between neighbouring double precision floats: rounding to the
  nearest float and rounding to one of the two neighbours are both accurate.
\<close>

definition float_eps :: real where
  "float_eps = 1 / 2 ^ 52"


text \<open>
  An accurate rounding that is exact everywhere but at the square root of five, which
  is irrational and has to be rounded: it rounds it down.
\<close>

definition sqrt5_down :: "real \<Rightarrow> real" where
  "sqrt5_down x = (if x = sqrt 5 then sqrt 5 * (1 - float_eps) else x)"

text \<open>
  What the specification expects of a call of a Fibonacci function with the argument
  \<open>n\<close>: the error for a negative \<open>n\<close>, the \<open>n\<close>-th Fibonacci number otherwise.
\<close>

definition fib_outcome :: "int \<Rightarrow> error + int" where
  "fib_outcome n = (if n < 0 then Inl ValueError else Inr (fibonacci_number (nat n)))"

section \<open>The exact Fibonacci functions compute the Fibonacci numbers\<close>

subsection \<open>fib_by_recursive and fib_by_loop\<close>

lemma rec_fib: "fib_by_recursive (int k) = Inr (fibonacci_number k)"
proof (induction k rule: fibonacci_number.induct)
  case 1 show ?case by (simp add: fib_by_recursive.simps)
next
  case 2 show ?case by (simp add: fib_by_recursive.simps)
next
  case (3 k)
  have a: "int (Suc (Suc k)) - 1 = int (Suc k)" and b: "int (Suc (Suc k)) - 2 = int k" by simp_all
  show ?case
    apply (subst fib_by_recursive.simps)
    apply (simp only: a b 3)
    apply simp
    done
qed

lemma loop_fib: "fold loop_body [2..int (Suc k)] (0, 1) = (fibonacci_number k, fibonacci_number (Suc k))"
proof (induction k)
  case 0 show ?case by simp
next
  case (Suc k)
  have "[2..int (Suc (Suc k))] = [2..int (Suc k)] @ [int (Suc (Suc k))]"
    using upto_rec2 [of 2 "int (Suc (Suc k))"] by simp
  then show ?case using Suc by (simp add: loop_body_def)
qed

lemma fib_by_loop_fib: "fib_by_loop (int k) = Inr (fibonacci_number k)"
proof (cases k)
  case 0 then show ?thesis by (simp add: fib_by_loop_def)
next
  case (Suc j)
  show ?thesis unfolding Suc fib_by_loop_def loop_fib by (cases j) simp_all
qed

subsection \<open>fib_by_dp\<close>

text \<open>
  The loop over \<open>[2..n]\<close> is unrolled from its end: running the loop over a list
  extended by one index is running it over the list and then once more.
\<close>

lemma getitem_nth: "i < length xs \<Longrightarrow> getitem xs (int i) = Inr (xs ! i)"
  by (simp add: getitem_def)

lemma dp_loop_snoc:
  "dp_loop (xs @ [i]) fibs = (case dp_loop xs fibs of Inl e \<Rightarrow> Inl e | Inr f \<Rightarrow> dp_loop [i] f)"
  by (induction xs arbitrary: fibs) (simp_all split: sum.splits)

lemma dp_loop_fib:
  "dp_loop [2..int (Suc k)] [0, 1] = Inr (map fibonacci_number [0..<Suc (Suc k)])"
proof (induction k)
  case 0
  show ?case by simp
next
  case (Suc k)
  let ?f = "map fibonacci_number [0..<Suc (Suc k)]"
  have split: "[2..int (Suc (Suc k))] = [2..int (Suc k)] @ [int (Suc (Suc k))]"
    using upto_rec2 [of 2 "int (Suc (Suc k))"] by simp
  have g1: "getitem ?f (int (Suc (Suc k)) - 1) = Inr (fibonacci_number (Suc k))"
    using getitem_nth [of "Suc k" ?f] by (simp del: upt_Suc)
  have g2: "getitem ?f (int (Suc (Suc k)) - 2) = Inr (fibonacci_number k)"
    using getitem_nth [of k ?f] by (simp del: upt_Suc)
  have "dp_loop [2..int (Suc (Suc k))] [0, 1] = dp_loop [int (Suc (Suc k))] ?f"
    by (simp only: split dp_loop_snoc Suc sum.case)
  also have "\<dots> = Inr (?f @ [fibonacci_number (Suc k) + fibonacci_number k])"
    by (simp only: dp_loop.simps g1 g2 sum.case)
  also have "?f @ [fibonacci_number (Suc k) + fibonacci_number k]
      = map fibonacci_number [0..<Suc (Suc (Suc k))]"
    by simp
  finally show ?case .
qed

lemma fib_by_dp_fib: "fib_by_dp (int k) = Inr (map fibonacci_number [0..<max (Suc k) 2])"
proof (cases k)
  case 0 then show ?thesis by (simp add: fib_by_dp_def)
next
  case (Suc j)
  have "max (Suc (Suc j)) 2 = Suc (Suc j)" by simp
  then show ?thesis unfolding Suc fib_by_dp_def dp_loop_fib by (simp del: upt_Suc)
qed

lemma fib_by_dp_nonneg:
  "0 \<le> n \<Longrightarrow> fib_by_dp n = Inr (map fibonacci_number [0..<max (Suc (nat n)) 2])"
  using fib_by_dp_fib [of "nat n"] by simp

subsection \<open>fib_by_matrix\<close>

text \<open>
  The addition law of the Fibonacci numbers gives the three doubling identities the
  loop body computes with. The loop keeps the triple of the Fibonacci numbers at
  \<open>k + 1\<close>, \<open>k\<close> and \<open>k - 1\<close>, where \<open>k\<close> is the number whose binary digits have
  been read so far.
\<close>

lemma fib_add:
  "fibonacci_number (Suc (m + n)) =
     fibonacci_number (Suc m) * fibonacci_number (Suc n) + fibonacci_number m * fibonacci_number n"
  by (induction n rule: fibonacci_number.induct) (simp_all add: algebra_simps)

lemma matrix_body_fib:
  "matrix_body d (fibonacci_number (Suc (Suc j)), fibonacci_number (Suc j), fibonacci_number j) =
     (if d = CHR ''1''
      then (fibonacci_number (Suc (Suc (Suc j + Suc j))), fibonacci_number (Suc (Suc j + Suc j)),
            fibonacci_number (Suc (j + Suc j)))
      else (fibonacci_number (Suc (Suc j + Suc j)), fibonacci_number (Suc (j + Suc j)),
            fibonacci_number (Suc (j + j))))"
proof -
  have a: "fibonacci_number (Suc (Suc j + Suc j)) =
      (fibonacci_number (Suc (Suc j)))\<^sup>2 + (fibonacci_number (Suc j))\<^sup>2"
    by (simp only: fib_add [of "Suc j" "Suc j"] power2_eq_square)
  have b: "fibonacci_number (Suc (j + Suc j)) =
      fibonacci_number (Suc (Suc j)) * fibonacci_number (Suc j) + fibonacci_number (Suc j) * fibonacci_number j"
    by (simp only: fib_add [of "j" "Suc j"] mult.commute)
  have c: "fibonacci_number (Suc (j + j)) = (fibonacci_number (Suc j))\<^sup>2 + (fibonacci_number j)\<^sup>2"
    by (simp only: fib_add [of "j" "j"] power2_eq_square)
  have d: "fibonacci_number (Suc (Suc (Suc j + Suc j))) =
      fibonacci_number (Suc (Suc j + Suc j)) + fibonacci_number (Suc (j + Suc j))"
    by simp
  show ?thesis
    by (simp only: matrix_body_def Let_def prod.case d a b c)
qed

lemma bin_digits_nonempty: "bin_digits k \<noteq> []"
  by (subst bin_digits.simps) simp

lemma matrix_fold_fib:
  "1 \<le> k \<Longrightarrow> fold matrix_body (tl (bin_digits k)) (1, 1, 0) =
     (fibonacci_number (Suc k), fibonacci_number k, fibonacci_number (k - 1))"
proof (induction k rule: bin_digits.induct)
  case (1 k)
  show ?case
  proof (cases "k < 2")
    case True
    with 1(2) have "k = 1" by simp
    then show ?thesis by (simp add: bin_digits.simps)
  next
    case False
    define h where "h = k div 2"
    define d where "d = (if k mod 2 = 0 then CHR ''0'' else CHR ''1'')"
    from False have h: "1 \<le> h" by (simp add: h_def)
    then obtain j where j: "h = Suc j" by (cases h) auto
    have digits: "bin_digits k = bin_digits h @ [d]"
      using False by (subst bin_digits.simps) (simp add: h_def d_def)
    have IH: "fold matrix_body (tl (bin_digits h)) (1, 1, 0) =
        (fibonacci_number (Suc h), fibonacci_number h, fibonacci_number (h - 1))"
      using 1(1) False h by (simp add: h_def)
    have k: "k = (if d = CHR ''1'' then Suc (Suc j + Suc j) else Suc (j + Suc j))"
    proof -
      have "k = 2 * h + k mod 2" by (simp add: h_def)
      then show ?thesis using j by (auto simp: d_def)
    qed
    have "fold matrix_body (tl (bin_digits k)) (1, 1, 0) =
        matrix_body d (fibonacci_number (Suc (Suc j)), fibonacci_number (Suc j), fibonacci_number j)"
      using IH by (simp add: digits bin_digits_nonempty j)
    also have "\<dots> = (fibonacci_number (Suc k), fibonacci_number k, fibonacci_number (k - 1))"
      by (subst matrix_body_fib) (subst (1 2 3) k, simp)
    finally show ?thesis .
  qed
qed

lemma fib_by_matrix_fib: "fib_by_matrix (int k) = Inr (fibonacci_number k)"
proof (cases "k \<le> 1")
  case True
  then have "k = 0 \<or> k = 1" by auto
  then show ?thesis by (auto simp: fib_by_matrix_def)
next
  case False
  then have "1 \<le> k" by simp
  from matrix_fold_fib [OF this] False show ?thesis
    by (simp add: fib_by_matrix_def bin_def drop_Suc numeral_3_eq_3)
qed

subsection \<open>fib_by_cache\<close>

text \<open>
  Every dictionary the module can reach is a \<open>fib_table\<close>: the decorator creates
  \<open>fib_table 2\<close>, and a call on \<open>fib_table m\<close> leaves \<open>fib_table m\<close> or a longer one.
\<close>

lemma map_of_fib_table:
  "map_of (fib_table m) j = (if 0 \<le> j \<and> j < int m then Some (fibonacci_number (nat j)) else None)"
proof (induction m)
  case 0 show ?case by (simp add: fib_table_def)
next
  case (Suc m)
  have "fib_table (Suc m) = fib_table m @ [(int m, fibonacci_number m)]"
    by (simp add: fib_table_def)
  then show ?case using Suc by (auto simp: map_add_def split: option.splits)
qed

lemma map_of_fib_table_int:
  "map_of (fib_table m) (int i) = (if i < m then Some (fibonacci_number i) else None)"
  by (simp add: map_of_fib_table)

lemma update_absent: "map_of al k = None \<Longrightarrow> AList.update k v al = al @ [(k, v)]"
  by (induction al) (auto split: if_splits)

lemma fib_table_Suc: "fib_table (Suc m) = fib_table m @ [(int m, fibonacci_number m)]"
  by (simp add: fib_table_def)

lemma fill_cache_snoc:
  "fill_cache (xs @ [i]) c =
     (case fill_cache xs c of (Some e, c') \<Rightarrow> (Some e, c') | (None, c') \<Rightarrow> fill_cache [i] c')"
  by (induction xs arbitrary: c) (simp_all split: sum.splits)

lemma fill_cache_step:
  "fill_cache [int (Suc (Suc m))] (fib_table (Suc (Suc m))) = (None, fib_table (Suc (Suc (Suc m))))"
proof -
  have i1: "int (Suc (Suc m)) - 1 = int (Suc m)" and i2: "int (Suc (Suc m)) - 2 = int m"
    by simp_all
  have g1: "dict_get (fib_table (Suc (Suc m))) (int (Suc (Suc m)) - 1) = Inr (fibonacci_number (Suc m))"
    unfolding i1 dict_get_def map_of_fib_table_int by simp
  have g2: "dict_get (fib_table (Suc (Suc m))) (int (Suc (Suc m)) - 2) = Inr (fibonacci_number m)"
    unfolding i2 dict_get_def map_of_fib_table_int by simp
  have u: "AList.update (int (Suc (Suc m))) v (fib_table (Suc (Suc m))) =
      fib_table (Suc (Suc m)) @ [(int (Suc (Suc m)), v)]" for v
    by (rule update_absent) (simp only: map_of_fib_table_int, simp)
  show ?thesis
    by (simp only: fill_cache.simps g1 g2 sum.case u fib_table_Suc [of "Suc (Suc m)"] fibonacci_number.simps)
qed

lemma fill_cache_fib:
  "fill_cache [int (Suc (Suc m))..int (Suc (Suc m)) + int j - 1] (fib_table (Suc (Suc m))) =
     (None, fib_table (Suc (Suc m) + j))"
proof (induction j)
  case 0 show ?case by simp
next
  case (Suc j)
  have "[int (Suc (Suc m))..int (Suc (Suc m)) + int (Suc j) - 1] =
      [int (Suc (Suc m))..int (Suc (Suc m)) + int j - 1] @ [int (Suc (Suc (m + j)))]"
    using upto_rec2 [of "int (Suc (Suc m))" "int (Suc (Suc m)) + int (Suc j) - 1"] by simp
  then show ?case
    using Suc fill_cache_step [of "m + j"] by (simp only: fill_cache_snoc prod.case option.case add_Suc add_Suc_right)
qed

lemma fib_by_cache_fib_table:
  "fib_by_cache (int k) (fib_table (Suc (Suc m))) =
     (Inr (fibonacci_number k), fib_table (max (Suc (Suc m)) (Suc k)))"
proof (cases "k < Suc (Suc m)")
  case True
  then have "max (Suc (Suc m)) (Suc k) = Suc (Suc m)" by simp
  with True show ?thesis
    by (simp add: fib_by_cache_def cache_for_fib_def fib_by_cache_func_def map_of_fib_table_int dict_get_def)
next
  case False
  define j where "j = Suc k - Suc (Suc m)"
  from False have j: "Suc k = Suc (Suc m) + j" by (simp add: j_def)
  then have m: "max (Suc (Suc m)) (Suc k) = Suc (Suc m) + j" by simp
  have r: "[dict_len (fib_table (Suc (Suc m)))..int k] = [int (Suc (Suc m))..int (Suc (Suc m)) + int j - 1]"
    using j by (simp add: dict_len_def fib_table_def)
  have n: "map_of (fib_table (Suc (Suc m))) (int k) = None"
    using False by (simp add: map_of_fib_table_int)
  have g: "dict_get (fib_table (Suc (Suc m) + j)) (int k) = Inr (fibonacci_number k)"
    unfolding dict_get_def map_of_fib_table_int using j by simp
  show ?thesis
    unfolding fib_by_cache_def cache_for_fib_def fib_by_cache_func_def Let_def snd_conv m
    by (simp only: n r fill_cache_fib g if_True prod.case option.case of_nat_less_0_iff if_False simp_thms)
qed

lemma fib_cache_table: "fib_cache = fib_table 2"
  by (simp add: fib_cache_def cache_for_fib_def fib_table_def numeral_2_eq_2)

lemma fib_by_cache_negative: "n < 0 \<Longrightarrow> fib_by_cache n cache = (Inl ValueError, cache)"
  by (simp add: fib_by_cache_def cache_for_fib_def fib_by_cache_func_def)

lemma fib_by_cache_table:
  "fib_by_cache n (fib_table (Suc (Suc m))) =
     (if n < 0 then (Inl ValueError, fib_table (Suc (Suc m)))
      else (Inr (fibonacci_number (nat n)), fib_table (max (Suc (Suc m)) (Suc (nat n)))))"
proof (cases "n < 0")
  case True
  then show ?thesis by (simp add: fib_by_cache_negative)
next
  case False
  then have "n = int (nat n)" by simp
  then show ?thesis using fib_by_cache_fib_table [of "nat n" m] False by simp
qed

lemma fib_by_cache_calls_table:
  "\<exists>m'\<ge>m. fib_by_cache_calls ns (fib_table (Suc (Suc m))) = (map fib_outcome ns, fib_table (Suc (Suc m')))"
proof (induction ns arbitrary: m)
  case Nil
  show ?case by auto
next
  case (Cons n ns)
  obtain m1 where m1: "m \<le> m1"
    and step: "fib_by_cache n (fib_table (Suc (Suc m))) = (fib_outcome n, fib_table (Suc (Suc m1)))"
  proof (cases "n < 0")
    case True
    then have "fib_by_cache n (fib_table (Suc (Suc m))) = (fib_outcome n, fib_table (Suc (Suc m)))"
      by (simp add: fib_by_cache_table fib_outcome_def)
    then show ?thesis using that [of m] by simp
  next
    case False
    have "max (Suc (Suc m)) (Suc (nat n)) = Suc (Suc (max m (nat n - 1)))" by (cases "nat n") auto
    with False have "fib_by_cache n (fib_table (Suc (Suc m))) = (fib_outcome n, fib_table (Suc (Suc (max m (nat n - 1)))))"
      by (simp add: fib_by_cache_table fib_outcome_def)
    then show ?thesis using that [of "max m (nat n - 1)"] by simp
  qed
  from Cons.IH [of m1] obtain m' where "m1 \<le> m'"
    and "fib_by_cache_calls ns (fib_table (Suc (Suc m1))) = (map fib_outcome ns, fib_table (Suc (Suc m')))"
    by blast
  with m1 step show ?case by (intro exI [of _ m']) simp
qed

lemma fib_by_cache_calls_append:
  "fib_by_cache_calls (ns1 @ ns2) c =
     (case fib_by_cache_calls ns1 c of
        (rs1, c1) \<Rightarrow> (case fib_by_cache_calls ns2 c1 of (rs2, c2) \<Rightarrow> (rs1 @ rs2, c2)))"
  by (induction ns1 arbitrary: c) (simp_all split: prod.splits)

lemma fib_table_dom: "dom (map_of (fib_table (Suc m))) = {0..int m}"
  by (auto simp: dom_def map_of_fib_table)

lemma fib_table_mono:
  "a \<le> b \<Longrightarrow> map_of (fib_table a) k = Some v \<Longrightarrow> map_of (fib_table b) k = Some v"
  by (auto simp: map_of_fib_table split: if_splits)

lemma fib_table_distinct: "distinct (map fst (fib_table m))"
  by (simp add: fib_table_def comp_def distinct_map inj_on_def)

section \<open>The pi module\<close>

text \<open>
  The inner loop adds to the count the number of the \<open>y\<close> that pass the test, the
  outer loop does so for every \<open>x\<close>: together they count the pairs of the product of
  the two ranges that pass it, and these pairs are the lattice points.
\<close>

lemma fold_count_body:
  "fold (count_body n x) ys c = c + int (length (filter (\<lambda>y. x ^ 2 + y ^ 2 \<le> n ^ 2) ys))"
  by (induction ys arbitrary: c) (simp_all add: count_body_def)

lemma fold_count_rows:
  "fold (\<lambda>x count. fold (count_body n x) ys count) xs c =
     c + int (length (filter (\<lambda>(x, y). x ^ 2 + y ^ 2 \<le> n ^ 2) (List.product xs ys)))"
  by (induction xs arbitrary: c) (simp_all add: fold_count_body filter_map comp_def)

lemma lattice_points_set:
  "lattice_points n = set (filter (\<lambda>(x, y). x ^ 2 + y ^ 2 \<le> n ^ 2) (List.product [0..n] [0..n]))"
  by (auto simp: lattice_points_def)

lemma lattice_points_eq:
  "lattice_points n = {(x, y). 0 \<le> x \<and> x \<le> n \<and> 0 \<le> y \<and> y \<le> n \<and> x ^ 2 + y ^ 2 \<le> n ^ 2}"
  by (auto simp: lattice_points_def)

lemma card_lattice_points:
  "card (lattice_points n) =
     length (filter (\<lambda>(x, y). x ^ 2 + y ^ 2 \<le> n ^ 2) (List.product [0..n] [0..n]))"
  unfolding lattice_points_set
  by (rule distinct_card) (simp add: distinct_product)

lemma pi_simulation_value:
  "0 \<le> n \<Longrightarrow> pi_simulation fl n =
     Inr (fl (fl (real_of_int (4 * int (card (lattice_points n)))) / fl (real_of_int ((n + 1) ^ 2))))"
  by (simp add: pi_simulation_def fold_count_rows card_lattice_points int_div_float_def Let_def)

lemma pi_calls_nth:
  "i < length cs \<Longrightarrow> cs ! i = Pi_simulation n \<Longrightarrow> fst (pi_calls fl cs g) ! i = pi_simulation fl n"
proof (induction cs arbitrary: i g)
  case Nil
  then show ?case by simp
next
  case (Cons c cs)
  show ?case
  proof (cases i)
    case 0
    with Cons.prems show ?thesis by (simp split: prod.splits)
  next
    case (Suc k)
    with Cons.prems have "k < length cs" "cs ! k = Pi_simulation n" by simp_all
    from Cons.IH [OF this] Suc show ?thesis
      by (simp split: prod.splits) (metis fst_conv)
  qed
qed

lemma by_random_zero: "pi_simulation_by_random fl 0 g = (Inl ZeroDivisionError, g)"
  by (simp add: pi_simulation_by_random_def int_div_float_def)



subsection \<open>The Binet functions\<close>





text \<open>
  The random estimator depends on the generator: the same argument gives different
  results on different generators.
\<close>

lemma by_random_depends_on_generator:
  "fst (pi_simulation_by_random (\<lambda>x. x) 1 (sconst 0)) = Inr 4 \<and>
   fst (pi_simulation_by_random (\<lambda>x. x) 1 (sconst (9 / 10))) = Inr 0"
  by (simp add: pi_simulation_by_random_def random_body_def int_div_float_def power2_eq_square)

section \<open>Errors\<close>





section \<open>The recursion limit\<close>

text \<open>
  \<^verbatim>\<open>fib_by_recursive(n)\<close> nests \<open>n - 1\<close> calls inside the first one (none for \<open>n \<le> 1\<close>). When
  the interpreter allows that many it returns the Fibonacci number, as on an unlimited
  stack; when it does not, the innermost call that is refused raises \<^verbatim>\<open>RuntimeError\<close>
  and the exception reaches the caller.
\<close>

lemma fib_by_recursive_limited_nonneg:
  "0 \<le> n \<Longrightarrow>
     fib_by_recursive_limited depth n =
       (if nat n - 1 \<le> depth then Inr (fibonacci_number (nat n)) else Inl RuntimeError)"
proof (induction depth arbitrary: n)
  case 0
  show ?case
  proof (cases "n \<le> 1")
    case True
    with 0 have "n = 0 \<or> n = 1" by auto
    then show ?thesis by auto
  next
    case False
    then show ?thesis by simp
  qed
next
  case (Suc depth)
  show ?case
  proof (cases "n \<le> 1")
    case True
    with Suc.prems have "n = 0 \<or> n = 1" by auto
    then show ?thesis by auto
  next
    case False
    define k where "k = nat n - 2"
    from False have n: "n = int (Suc (Suc k))" by (simp add: k_def)
    have p1: "0 \<le> n - 1" and p2: "0 \<le> n - 2" using False by simp_all
    have n1: "nat (n - 1) = Suc k" and n2: "nat (n - 2) = k"
      using False by (simp_all add: k_def nat_diff_distrib)
    have c1: "fib_by_recursive_limited depth (n - 1) =
        (if k \<le> depth then Inr (fibonacci_number (Suc k)) else Inl RuntimeError)"
      using Suc.IH [OF p1] by (simp only: n1) simp
    have c2: "fib_by_recursive_limited depth (n - 2) =
        (if k - 1 \<le> depth then Inr (fibonacci_number k) else Inl RuntimeError)"
      using Suc.IH [OF p2] by (simp only: n2)
    have "fib_by_recursive_limited (Suc depth) n =
        (if k \<le> depth then Inr (fibonacci_number (Suc (Suc k))) else Inl RuntimeError)"
      using False by (simp add: c1 c2) arith
    moreover have "nat n = Suc (Suc k)" by (simp add: n)
    ultimately show ?thesis by (simp only:) simp
  qed
qed


lemma fib_by_recursive_limited_unlimited:
  "0 \<le> n \<Longrightarrow> nat n - 1 \<le> depth \<Longrightarrow> fib_by_recursive_limited depth n = fib_by_recursive n"
  using rec_fib [of "nat n"] by (simp add: fib_by_recursive_limited_nonneg)

section \<open>fib_by_dp from one on\<close>

lemma fib_by_dp_from_one:
  assumes "1 \<le> n"
  shows "\<exists>fibs. fib_by_dp n = Inr fibs \<and> int (length fibs) = n + 1 \<and>
           (\<forall>i<length fibs. fibs ! i = fibonacci_number i)"
proof -
  let ?fibs = "map fibonacci_number [0..<max (Suc (nat n)) 2]"
  have "fib_by_dp n = Inr ?fibs" using assms by (intro fib_by_dp_nonneg) simp
  moreover have "int (length ?fibs) = n + 1" using assms by (simp del: upt_Suc)
  moreover have "\<forall>i<length ?fibs. ?fibs ! i = fibonacci_number i" by (simp del: upt_Suc)
  ultimately show ?thesis by blast
qed

section \<open>The Binet functions under rounding\<close>

subsection \<open>Rounding, truncation and the closed form\<close>











subsection \<open>How far the rounding errors carry\<close>





subsection \<open>The two functions up to forty\<close>









subsection \<open>A rounding on which the truncation shows\<close>


lemma sqrt5_down_other: "x \<noteq> sqrt 5 \<Longrightarrow> sqrt5_down x = x"
  by (simp add: sqrt5_down_def)


section \<open>The claims of the specification\<close>

subsection \<open>The Fibonacci module\<close>

text \<open>
  Claim C1. For every \<open>n\<close> from 0 to 30 the five exact variants agree:
  \<^verbatim>\<open>fib_by_recursive(n)\<close>, \<^verbatim>\<open>fib_by_loop(n)\<close>, \<^verbatim>\<open>fib_by_dp(n)[n]\<close>, \<^verbatim>\<open>fib_by_cache(n)\<close> and
  \<^verbatim>\<open>fib_by_matrix(n)\<close> return the same value, the \<open>n\<close>-th Fibonacci number.
  \<^verbatim>\<open>fib_by_cache\<close> is called on the dictionary of the module as any earlier calls
  \<open>ns\<close> of the process have left it. The recursive variant returns this value on an
  unlimited stack and under every recursion limit that allows 29 nested calls.
\<close>

theorem fib_variants_agree:
  assumes "0 \<le> n" and "n \<le> 30" and "fib_by_cache_calls ns fib_cache = (rs, cache)"
  shows "\<exists>v fibs. fib_by_recursive n = Inr v \<and> fib_by_loop n = Inr v \<and>
           fib_by_dp n = Inr fibs \<and> getitem fibs n = Inr v \<and>
           fst (fib_by_cache n cache) = Inr v \<and> fib_by_matrix n = Inr v \<and>
           v = fibonacci_number (nat n) \<and>
           (29 \<le> depth \<longrightarrow> fib_by_recursive_limited depth n = Inr v)"
proof -
  define k where "k = nat n"
  with assms(1) have n: "n = int k" by simp
  let ?fibs = "map fibonacci_number [0..<max (Suc k) 2]"
  obtain m where "cache = fib_table (Suc (Suc m))"
    using fib_by_cache_calls_table [of 0 ns] assms(3) by (auto simp: fib_cache_table numeral_2_eq_2)
  then have "fst (fib_by_cache n cache) = Inr (fibonacci_number k)"
    unfolding n by (simp add: fib_by_cache_fib_table)
  moreover have "getitem ?fibs n = Inr (fibonacci_number k)"
    unfolding n using getitem_nth [of k ?fibs] by (simp del: upt_Suc)
  moreover have "29 \<le> depth \<longrightarrow> fib_by_recursive_limited depth (int k) = Inr (fibonacci_number k)"
    using assms(2) by (simp add: fib_by_recursive_limited_nonneg n) arith
  ultimately show ?thesis
    unfolding n using rec_fib [of k] fib_by_loop_fib [of k] fib_by_dp_fib [of k] fib_by_matrix_fib [of k]
    by (intro exI [of _ "fibonacci_number k"] exI [of _ ?fibs]) simp
qed

theorem fib_variants_agree_witness:
  "(0::int) \<le> 10 \<and> (10::int) \<le> 30 \<and> (29::nat) \<le> 998 \<and>
   (\<exists>fibs. fib_by_recursive 10 = Inr 55 \<and> fib_by_loop 10 = Inr 55 \<and>
           fib_by_dp 10 = Inr fibs \<and> getitem fibs 10 = Inr 55 \<and>
           fst (fib_by_cache 10 (snd (fib_by_cache_calls [12, 3] fib_cache))) = Inr 55 \<and>
           fib_by_matrix 10 = Inr 55 \<and> fib_by_recursive_limited 998 10 = Inr 55)"
proof -
  have v: "fibonacci_number (nat 10) = 55" by code_simp
  have c: "fib_by_cache_calls [12, 3] fib_cache =
      (fst (fib_by_cache_calls [12, 3] fib_cache), snd (fib_by_cache_calls [12, 3] fib_cache))"
    by simp
  from fib_variants_agree [of 10, OF _ _ c, where depth = 998] show ?thesis
    unfolding v by auto
qed

text \<open>
  Claim C2 asks for a list of length \<open>n + 1\<close> whose index \<open>i\<close> holds the \<open>i\<close>-th
  Fibonacci number. The code fails it at \<open>n = 0\<close>: the list is seeded with the two
  values \<open>[0, 1]\<close>, the loop over \<^verbatim>\<open>range(2, 1)\<close> does not run, and the two seeds are
  returned, one element more than the indices \<open>0, \<dots>, n\<close> the loop bound aims at.
  For every \<open>n\<close> from 1 on the claim holds (\<open>fib_by_dp_from_one\<close>).
\<close>

theorem fib_by_dp_zero:
  "fib_by_dp 0 = Inr [0, 1] \<and> int (length [0, 1 :: int]) \<noteq> 0 + 1"
  by (simp add: fib_by_dp_def)

text \<open>
  Claim C6. Let a process make the calls \<open>ns1\<close> and then the calls \<open>ns2\<close> of
  \<^verbatim>\<open>fib_by_cache\<close>, starting from the dictionary the decorator created. After all the
  calls the dictionary holds exactly the indices \<open>0, \<dots>, m\<close> for some \<open>m \<ge> 1\<close>, each once
  and each with the Fibonacci number of the index. No entry that was there after
  \<open>ns1\<close> is removed or changed by \<open>ns2\<close>, and every call returns the outcome that
  depends on its argument alone, whatever was called before: a later call with a
  smaller \<open>n\<close> returns what the call returned before. Calls with a negative argument
  may be among them; they raise and change nothing.
\<close>

theorem fib_cache_grows:
  assumes "fib_by_cache_calls ns1 fib_cache = (rs1, cache1)"
      and "fib_by_cache_calls ns2 cache1 = (rs2, cache2)"
  shows "fib_by_cache_calls (ns1 @ ns2) fib_cache = (rs1 @ rs2, cache2) \<and>
         (\<exists>m\<ge>1. dom (map_of cache2) = {0..int m} \<and> distinct (map fst cache2) \<and>
                 (\<forall>i\<le>m. map_of cache2 (int i) = Some (fibonacci_number i))) \<and>
         (\<forall>k v. map_of cache1 k = Some v \<longrightarrow> map_of cache2 k = Some v) \<and>
         rs1 = map fib_outcome ns1 \<and> rs2 = map fib_outcome ns2"
proof -
  from fib_by_cache_calls_table [of 0 ns1] assms(1)
  obtain m1 where c1: "cache1 = fib_table (Suc (Suc m1))" and rs1: "rs1 = map fib_outcome ns1"
    by (auto simp: fib_cache_table numeral_2_eq_2)
  from fib_by_cache_calls_table [of m1 ns2] assms(2) c1
  obtain m2 where m2: "m1 \<le> m2" and c2: "cache2 = fib_table (Suc (Suc m2))"
    and rs2: "rs2 = map fib_outcome ns2"
    by auto
  have "fib_by_cache_calls (ns1 @ ns2) fib_cache = (rs1 @ rs2, cache2)"
    using assms by (simp add: fib_by_cache_calls_append)
  moreover have "dom (map_of cache2) = {0..int (Suc m2)}"
    unfolding c2 by (rule fib_table_dom)
  moreover have "distinct (map fst cache2)"
    unfolding c2 by (rule fib_table_distinct)
  moreover have "\<forall>i\<le>Suc m2. map_of cache2 (int i) = Some (fibonacci_number i)"
    unfolding c2 map_of_fib_table_int by simp
  moreover have "\<forall>k v. map_of cache1 k = Some v \<longrightarrow> map_of cache2 k = Some v"
    unfolding c1 c2 using m2 fib_table_mono [of "Suc (Suc m1)" "Suc (Suc m2)"] by simp
  moreover have "1 \<le> Suc m2" by simp
  ultimately show ?thesis using rs1 rs2 by blast
qed

theorem fib_cache_grows_witness:
  "fib_by_cache_calls [5] fib_cache = ([Inr 5], [(0, 0), (1, 1), (2, 1), (3, 2), (4, 3), (5, 5)]) \<and>
   fib_by_cache_calls [3, 7, 4] [(0, 0), (1, 1), (2, 1), (3, 2), (4, 3), (5, 5)] =
     ([Inr 2, Inr 13, Inr 3], [(0, 0), (1, 1), (2, 1), (3, 2), (4, 3), (5, 5), (6, 8), (7, 13)]) \<and>
   map_of [(0, 0), (1, 1), (2, 1), (3, 2), (4, 3), (5, 5), (6, 8), (7, 13 :: int)] (5 :: int) = Some 5 \<and>
   [Inr 5] = map fib_outcome [5] \<and> [Inr 2, Inr 13, Inr 3] = map fib_outcome [3, 7, 4]"
proof -
  have h1: "fib_by_cache_calls [5] fib_cache = ([Inr 5], [(0, 0), (1, 1), (2, 1), (3, 2), (4, 3), (5, 5)])"
    by code_simp
  have h2: "fib_by_cache_calls [3, 7, 4] [(0, 0), (1, 1), (2, 1), (3, 2), (4, 3), (5, 5)] =
     ([Inr 2, Inr 13, Inr 3], [(0, 0), (1, 1), (2, 1), (3, 2), (4, 3), (5, 5), (6, 8), (7, 13)])"
    by code_simp
  from fib_cache_grows [OF h1 h2] h1 h2 show ?thesis by simp
qed




text \<open>
  Claim C9. For \<open>n = 0\<close> and for \<open>n = 1\<close>, \<^verbatim>\<open>fib_by_dp(n)\<close> returns the list
  \<open>[0, 1]\<close>, and for every non-negative \<open>n\<close> its result has the length
  \<open>max (n + 1) 2\<close>.
\<close>

theorem fib_by_dp_two_seeds:
  "fib_by_dp 0 = Inr [0, 1] \<and> fib_by_dp 1 = Inr [0, 1] \<and>
   (0 \<le> n \<longrightarrow> (\<exists>fibs. fib_by_dp n = Inr fibs \<and> int (length fibs) = max (n + 1) 2))"
proof -
  have "fib_by_dp 0 = Inr [0, 1]" "fib_by_dp 1 = Inr [0, 1]"
    by (simp_all add: fib_by_dp_def)
  moreover have "\<exists>fibs. fib_by_dp n = Inr fibs \<and> int (length fibs) = max (n + 1) 2" if "0 \<le> n"
    using fib_by_dp_nonneg [OF that] that by (simp del: upt_Suc)
  ultimately show ?thesis by blast
qed

theorem fib_by_dp_two_seeds_witness:
  "(0::int) \<le> 5 \<and> (\<exists>fibs. fib_by_dp 5 = Inr fibs \<and> int (length fibs) = max (5 + 1) 2)"
  using fib_by_dp_two_seeds [of 5] by simp

text \<open>
  Claim C10. A call of \<^verbatim>\<open>fib_by_cache\<close> with a negative \<open>n\<close> raises
  \<^verbatim>\<open>ValueError\<close> and leaves the dictionary as it was. It does so on every
  dictionary, also on one where a read would raise \<^verbatim>\<open>KeyError\<close>: the dictionary is
  neither read nor written before the exception.
\<close>

theorem fib_by_cache_rejects_first:
  "n < 0 \<Longrightarrow> fib_by_cache n cache = (Inl ValueError, cache)"
  by (rule fib_by_cache_negative)

theorem fib_by_cache_rejects_first_witness:
  "(- 1 :: int) < 0 \<and> fib_by_cache (- 1) [] = (Inl ValueError, [])
     \<and> fib_by_cache (- 1) [(0, 0), (1, 1), (2, 1)] = (Inl ValueError, [(0, 0), (1, 1), (2, 1)])"
  using fib_by_cache_rejects_first [of "- 1" "[]"]
    fib_by_cache_rejects_first [of "- 1" "[(0, 0), (1, 1), (2, 1)]"]
  by simp

subsection \<open>The pi module\<close>

text \<open>
  Claim C4 says that \<^verbatim>\<open>pi_simulation_by_random(n)\<close> returns a float for every
  non-negative \<open>n\<close>. For \<open>n = 0\<close> the guard \<open>n < 0\<close> lets the argument through, the loop
  does not run, and the division by \<^verbatim>\<open>float(0)\<close> raises \<^verbatim>\<open>ZeroDivisionError\<close>, whatever
  the rounding and the generator; the generator is not advanced.
\<close>

theorem pi_simulation_by_random_zero:
  "pi_simulation_by_random fl 0 g = (Inl ZeroDivisionError, g)"
  by (rule by_random_zero)

text \<open>
  Claim C5. For every non-negative \<open>n\<close>, \<^verbatim>\<open>pi_simulation(n)\<close> returns four times the
  number of the integer points \<open>(x, y)\<close> with \<open>0 \<le> x, y \<le> n\<close> and \<open>x\<^sup>2 + y\<^sup>2 \<le> n\<^sup>2\<close>,
  divided by \<open>(n + 1)\<^sup>2\<close>. The count is exact; the two conversions to float and the
  float division round as the platform does (\<open>fl\<close>), and without rounding error the
  result is the quotient itself.
\<close>

theorem pi_simulation_counts_lattice_points:
  "0 \<le> n \<Longrightarrow>
     pi_simulation fl n =
       Inr (fl (fl (real_of_int (4 * int (card {(x, y). 0 \<le> x \<and> x \<le> n \<and> 0 \<le> y \<and> y \<le> n \<and>
                                                     x ^ 2 + y ^ 2 \<le> n ^ 2})))
                / fl (real_of_int ((n + 1) ^ 2))))"
  using pi_simulation_value [of n fl] by (simp only: lattice_points_eq)

theorem pi_simulation_counts_lattice_points_witness:
  "(0::int) \<le> 2 \<and> card (lattice_points 2) = 6 \<and>
   pi_simulation (\<lambda>x. x) 2 = Inr (real_of_int (4 * 6) / real_of_int ((2 + 1) ^ 2))"
proof -
  have c: "card (lattice_points 2) = 6" by code_simp
  from pi_simulation_counts_lattice_points [of 2 "\<lambda>x. x"] c show ?thesis
    by (simp add: lattice_points_eq)
qed

text \<open>
  Claim C7. \<^verbatim>\<open>pi_simulation\<close> is deterministic: two calls with the same \<open>n\<close> return the
  same outcome, whether they are two calls of one process or calls of two processes,
  whatever the processes have called before and between them (calls of the random
  estimator advance the generator) and whatever generators they started with.
\<close>

theorem pi_simulation_deterministic:
  assumes "i < length cs" and "cs ! i = Pi_simulation n"
      and "j < length cs'" and "cs' ! j = Pi_simulation n"
  shows "fst (pi_calls fl cs g) ! i = fst (pi_calls fl cs' g') ! j"
  using pi_calls_nth [OF assms(1,2)] pi_calls_nth [OF assms(3,4)] by simp

theorem pi_simulation_deterministic_witness:
  "fst (pi_calls (\<lambda>x. x) [Pi_simulation 2, Pi_simulation_by_random 3, Pi_simulation 2] (sconst (1 / 2))) ! 0 =
   fst (pi_calls (\<lambda>x. x) [Pi_simulation 2, Pi_simulation_by_random 3, Pi_simulation 2] (sconst (1 / 2))) ! 2"
  using pi_simulation_deterministic
    [of 0 "[Pi_simulation 2, Pi_simulation_by_random 3, Pi_simulation 2]" 2
        2 "[Pi_simulation 2, Pi_simulation_by_random 3, Pi_simulation 2]"]
  by simp

subsection \<open>Both modules\<close>




end
